theory Spec2Isabelle
  imports Complex_Main "HOL-Library.Sublist"
begin

section \<open>Rectangles and the geometry operations of parse_EN.py\<close>

text \<open>
  The segmentation code of \<^verbatim>\<open>src/gptpdf/parse_EN.py\<close> only ever builds geometries with
  \<^verbatim>\<open>sg.box(minx, miny, maxx, maxy)\<close>. A rectangle is therefore the four arguments of
  that call. Two boxes compare equal in Python exactly when their coordinate sequences
  agree, which for boxes means that the four arguments agree; this is HOL equality on
  \<open>rect\<close>, and it is what \<^verbatim>\<open>list.remove\<close> uses.

  Coordinates are Python floats in the source and real numbers here. The bounds and the
  union of the geometry library are taken as the mathematical operations on axis-aligned
  boxes, also for a box without extent in one direction.
\<close>

datatype rect = Box (minx: real) (miny: real) (maxx: real) (maxy: real)

type_synonym bounds = "real \<times> real \<times> real \<times> real"

text \<open>\<^verbatim>\<open>geom.bounds\<close>: the tuple (lowest x, lowest y, highest x, highest y).\<close>

definition bounds :: "rect \<Rightarrow> bounds" where
  "bounds r = (min (minx r) (maxx r), min (miny r) (maxy r),
               max (minx r) (maxx r), max (miny r) (maxy r))"

text \<open>Tuple indexing \<^verbatim>\<open>b[0]\<close>, \<^verbatim>\<open>b[1]\<close>, \<^verbatim>\<open>b[2]\<close>, \<^verbatim>\<open>b[3]\<close>.\<close>

fun at0 :: "bounds \<Rightarrow> real" where "at0 (a, b, c, d) = a"
fun at1 :: "bounds \<Rightarrow> real" where "at1 (a, b, c, d) = b"
fun at2 :: "bounds \<Rightarrow> real" where "at2 (a, b, c, d) = c"
fun at3 :: "bounds \<Rightarrow> real" where "at3 (a, b, c, d) = d"

text \<open>\<^verbatim>\<open>sg.box(*t)\<close> for a 4-tuple \<open>t\<close>.\<close>

fun box_of :: "bounds \<Rightarrow> rect" where
  "box_of (a, b, c, d) = Box a b c d"

text \<open>
  \<^verbatim>\<open>rect1.union(rect2).bounds\<close>: the union of two boxes is the point set covered by
  either, so its bounds are the extreme coordinates over both operands.
\<close>

definition union_bounds :: "rect \<Rightarrow> rect \<Rightarrow> bounds" where
  "union_bounds rect1 rect2 =
     (min (at0 (bounds rect1)) (at0 (bounds rect2)),
      min (at1 (bounds rect1)) (at1 (bounds rect2)),
      max (at2 (bounds rect1)) (at2 (bounds rect2)),
      max (at3 (bounds rect1)) (at3 (bounds rect2)))"

text \<open>\<^verbatim>\<open>_union_rects\<close>: \<^verbatim>\<open>sg.box(*(rect1.union(rect2).bounds))\<close>.\<close>

definition union_rects :: "rect \<Rightarrow> rect \<Rightarrow> rect" where
  "union_rects rect1 rect2 = box_of (union_bounds rect1 rect2)"

text \<open>
  Distance between two boxes: the gap between their projections on each axis, combined
  by Pythagoras; zero when the boxes touch or overlap.
\<close>

definition gap :: "real \<Rightarrow> real \<Rightarrow> real \<Rightarrow> real \<Rightarrow> real" where
  "gap lo1 hi1 lo2 hi2 = max 0 (max (lo2 - hi1) (lo1 - hi2))"

definition xgap :: "rect \<Rightarrow> rect \<Rightarrow> real" where
  "xgap r1 r2 = gap (at0 (bounds r1)) (at2 (bounds r1)) (at0 (bounds r2)) (at2 (bounds r2))"

definition ygap :: "rect \<Rightarrow> rect \<Rightarrow> real" where
  "ygap r1 r2 = gap (at1 (bounds r1)) (at3 (bounds r1)) (at1 (bounds r2)) (at3 (bounds r2))"

definition box_distance :: "rect \<Rightarrow> rect \<Rightarrow> real" where
  "box_distance r1 r2 = sqrt ((xgap r1 r2)\<^sup>2 + (ygap r1 r2)\<^sup>2)"

text \<open>
  \<^verbatim>\<open>rect1.buffer(e).distance(rect2.buffer(e))\<close> is computed by the geometry library, in
  floating point, and is not part of the source. The functions below take it as the
  parameter \<open>bd\<close>: \<open>bd e rect1 rect2\<close> is the number the library returns. Nothing is
  assumed about it; in particular it need not be symmetric in the two rectangles.
\<close>

type_synonym buffered = "real \<Rightarrow> rect \<Rightarrow> rect \<Rightarrow> real"

text \<open>
  The exact value of that distance: each box grown outward by \<open>e\<close> in every direction,
  so the two come closer by \<open>2 * e\<close>, and not closer than touching. The library differs
  from it by rounding, and by drawing the rounded corners of a buffer as short straight
  segments. It is used below for concrete pages and lists whose boxes overlap or face
  each other along an axis, well away from the threshold of the test.
\<close>

definition buffer_distance :: buffered where
  "buffer_distance e r1 r2 = max 0 (box_distance r1 r2 - 2 * e)"


text \<open>\<^verbatim>\<open>_is_near\<close>: \<^verbatim>\<open>rect1.buffer(0.1).distance(rect2.buffer(0.1)) < distance\<close>.\<close>

definition is_near :: "buffered \<Rightarrow> rect \<Rightarrow> rect \<Rightarrow> real \<Rightarrow> bool" where
  "is_near bd rect1 rect2 d \<longleftrightarrow> bd (1 / 10) rect1 rect2 < d"

text \<open>\<^verbatim>\<open>_is_horizontal_near\<close>: the nested \<^verbatim>\<open>if\<close>s leave \<^verbatim>\<open>result\<close> false unless both hold.\<close>

definition is_horizontal_near :: "rect \<Rightarrow> rect \<Rightarrow> real \<Rightarrow> bool" where
  "is_horizontal_near rect1 rect2 d =
     (if \<bar>at3 (bounds rect1) - at1 (bounds rect1)\<bar> < 1 / 10
         \<or> \<bar>at3 (bounds rect2) - at1 (bounds rect2)\<bar> < 1 / 10
      then (if \<bar>at0 (bounds rect1) - at0 (bounds rect2)\<bar> < 1 / 10
               \<and> \<bar>at2 (bounds rect1) - at2 (bounds rect2)\<bar> < 1 / 10
            then \<bar>at3 (bounds rect1) - at3 (bounds rect2)\<bar> < d
            else False)
      else False)"


section \<open>The rectangle merger\<close>

text \<open>
  The test of \<^verbatim>\<open>_merge_rects\<close>:
  \<^verbatim>\<open>_is_near(rect, other_rect, distance) or (horizontal_distance and
  _is_horizontal_near(rect, other_rect, horizontal_distance))\<close>.
  \<^verbatim>\<open>horizontal_distance\<close> is an \<^verbatim>\<open>Optional[float]\<close>; as a condition, \<^verbatim>\<open>None\<close> and
  \<^verbatim>\<open>0.0\<close> count as false.
\<close>

definition merge_test :: "buffered \<Rightarrow> real \<Rightarrow> real option \<Rightarrow> rect \<Rightarrow> rect \<Rightarrow> bool" where
  "merge_test bd d hdist rect other_rect \<longleftrightarrow>
     is_near bd rect other_rect d \<or>
     (case hdist of
        None \<Rightarrow> False
      | Some h \<Rightarrow> h \<noteq> 0 \<and> is_horizontal_near rect other_rect h)"

text \<open>
  The loop \<^verbatim>\<open>for other_rect in rect_list\<close>. A Python list iterator keeps an index and
  stops when the index reaches the current length of the list, so the loop sees the
  removals made by its own body: after \<^verbatim>\<open>rect_list.remove(other_rect)\<close> the elements
  behind the removed one move down by one place while the index still advances.
  \<^verbatim>\<open>remove\<close> deletes the first element equal to its argument, which is \<open>remove1\<close>.
  The state is the index, \<^verbatim>\<open>rect\<close>, the contents of \<^verbatim>\<open>rect_list\<close>, and \<^verbatim>\<open>merged\<close>.
\<close>

function for_other_rect ::
  "buffered \<Rightarrow> real \<Rightarrow> real option \<Rightarrow> nat \<Rightarrow> rect \<Rightarrow> rect list \<Rightarrow> bool \<Rightarrow> rect \<times> rect list \<times> bool" where
  "for_other_rect bd d hdist i rect rect_list merged =
     (if i < length rect_list then
        (if merge_test bd d hdist rect (rect_list ! i)
         then for_other_rect bd d hdist (Suc i)
                (union_rects rect (rect_list ! i)) (remove1 (rect_list ! i) rect_list) True
         else for_other_rect bd d hdist (Suc i) rect rect_list merged)
      else (rect, rect_list, merged))"
  by pat_completeness auto
termination
  by (relation "measure (\<lambda>(bd, d, hdist, i, rect, rect_list, merged). length rect_list - i)")
     (auto simp: length_remove1)

declare for_other_rect.simps [simp del]

lemma for_other_rect_effect:
  "for_other_rect bd d hdist i rect rect_list merged = (rect', rect_list', merged') \<Longrightarrow>
     length rect_list' \<le> length rect_list
     \<and> (merged \<longrightarrow> merged')
     \<and> (merged' \<and> \<not> merged \<longrightarrow> length rect_list' < length rect_list)
     \<and> (\<not> merged' \<longrightarrow> rect' = rect \<and> rect_list' = rect_list)"
proof (induction bd d hdist i rect rect_list merged rule: for_other_rect.induct)
  case (1 bd d hdist i rect rect_list merged)
  show ?case
  proof (cases "i < length rect_list")
    case False
    with "1.prems" show ?thesis
      by (simp add: for_other_rect.simps [of bd d hdist i rect rect_list merged])
  next
    case inside: True
    show ?thesis
    proof (cases "merge_test bd d hdist rect (rect_list ! i)")
      case True
      with inside "1.prems"
      have run: "for_other_rect bd d hdist (Suc i) (union_rects rect (rect_list ! i))
                   (remove1 (rect_list ! i) rect_list) True = (rect', rect_list', merged')"
        by (simp add: for_other_rect.simps [of bd d hdist i rect rect_list merged])
      have shorter: "length (remove1 (rect_list ! i) rect_list) < length rect_list"
        using inside by (simp add: length_remove1)
      from "1.IH"(1) [OF inside True run] shorter show ?thesis
        by auto
    next
      case False
      with inside "1.prems"
      have run: "for_other_rect bd d hdist (Suc i) rect rect_list merged = (rect', rect_list', merged')"
        by (simp add: for_other_rect.simps [of bd d hdist i rect rect_list merged])
      from "1.IH"(2) [OF inside False run] show ?thesis .
    qed
  qed
qed

lemma for_other_rect_shorter:
  "(rect', rect_list', merged') = for_other_rect bd d hdist i rect rect_list merged \<Longrightarrow>
     length rect_list' \<le> length rect_list"
  using for_other_rect_effect [of bd d hdist i rect rect_list merged rect' rect_list' merged']
  by simp

text \<open>
  The loop \<^verbatim>\<open>while rect_list\<close>: pop the first rectangle, let it absorb what the scan
  finds, append it to \<^verbatim>\<open>new_rect_list\<close>. The result is the final contents of
  \<^verbatim>\<open>rect_list\<close> and of \<^verbatim>\<open>new_rect_list\<close>, and \<^verbatim>\<open>merged\<close>.
\<close>

function while_rect_list ::
  "buffered \<Rightarrow> real \<Rightarrow> real option \<Rightarrow> rect list \<Rightarrow> rect list \<Rightarrow> bool \<Rightarrow> rect list \<times> rect list \<times> bool" where
  "while_rect_list bd d hdist [] new_rect_list merged = ([], new_rect_list, merged)"
| "while_rect_list bd d hdist (rect # rect_list) new_rect_list merged =
     (case for_other_rect bd d hdist 0 rect rect_list merged of
        (rect', rect_list', merged') \<Rightarrow>
          while_rect_list bd d hdist rect_list' (new_rect_list @ [rect']) merged')"
  by pat_completeness auto
termination
  by (relation "measure (\<lambda>(bd, d, hdist, rect_list, new_rect_list, merged). length rect_list)")
     (auto dest: for_other_rect_shorter)

lemma while_rect_list_effect:
  "while_rect_list bd d hdist rect_list new_rect_list merged = (emptied, new_rect_list', merged') \<Longrightarrow>
     emptied = []
     \<and> length new_rect_list' \<le> length new_rect_list + length rect_list
     \<and> (merged \<longrightarrow> merged')
     \<and> (merged' \<and> \<not> merged \<longrightarrow> length new_rect_list' < length new_rect_list + length rect_list)
     \<and> (\<not> merged' \<longrightarrow> new_rect_list' = new_rect_list @ rect_list)"
proof (induction bd d hdist rect_list new_rect_list merged rule: while_rect_list.induct)
  case (1 bd d hdist new_rect_list merged)
  then show ?case by auto
next
  case (2 bd d hdist rect rect_list new_rect_list merged)
  obtain r rl m where scan: "for_other_rect bd d hdist 0 rect rect_list merged = (r, rl, m)"
    by (cases "for_other_rect bd d hdist 0 rect rect_list merged") auto
  with "2.prems"
  have run: "while_rect_list bd d hdist rl (new_rect_list @ [r]) m = (emptied, new_rect_list', merged')"
    by simp
  from "2.IH" [OF scan [symmetric] refl run] for_other_rect_effect [OF scan]
  show ?case by auto
qed

lemma while_rect_list_merged_shorter:
  "(emptied, new_rect_list, True) = while_rect_list bd d hdist rect_list [] False \<Longrightarrow>
     length new_rect_list < length rect_list"
  using while_rect_list_effect [of bd d hdist rect_list "[]" False emptied new_rect_list True]
  by simp

text \<open>
  \<^verbatim>\<open>_merge_rects\<close>: \<^verbatim>\<open>merged\<close> starts true, so the body of \<^verbatim>\<open>while merged\<close> runs at
  least once; each round resets \<^verbatim>\<open>merged\<close>, starts an empty \<^verbatim>\<open>new_rect_list\<close>, runs the
  inner loop and continues with \<^verbatim>\<open>new_rect_list\<close>. The value is the returned list.
\<close>

function merge_rects :: "buffered \<Rightarrow> rect list \<Rightarrow> real \<Rightarrow> real option \<Rightarrow> rect list" where
  "merge_rects bd rect_list d hdist =
     (case while_rect_list bd d hdist rect_list [] False of
        (emptied, new_rect_list, merged) \<Rightarrow>
          if merged then merge_rects bd new_rect_list d hdist else new_rect_list)"
  by pat_completeness auto
termination
  by (relation "measure (\<lambda>(bd, rect_list, d, hdist). length rect_list)")
     (auto dest: while_rect_list_merged_shorter)

declare merge_rects.simps [simp del]

text \<open>
  One round of \<^verbatim>\<open>while merged\<close>, seen from outside: the list the next round starts
  from, and whether the round merged anything.
\<close>

definition pass_list :: "buffered \<Rightarrow> real \<Rightarrow> real option \<Rightarrow> rect list \<Rightarrow> rect list" where
  "pass_list bd d hdist rect_list = fst (snd (while_rect_list bd d hdist rect_list [] False))"

definition pass_merged :: "buffered \<Rightarrow> real \<Rightarrow> real option \<Rightarrow> rect list \<Rightarrow> bool" where
  "pass_merged bd d hdist rect_list = snd (snd (while_rect_list bd d hdist rect_list [] False))"


section \<open>The adsorption pass\<close>

text \<open>
  The loop \<^verbatim>\<open>for index, rect in enumerate(target_rects)\<close> of
  \<^verbatim>\<open>_adsorb_rects_to_rects\<close>, for one \<^verbatim>\<open>text_area_rect\<close>: at the first index whose
  target is near, the entry is replaced by the union and the loop \<^verbatim>\<open>break\<close>s with
  \<^verbatim>\<open>adsorbed = True\<close>. The result is the target list and \<^verbatim>\<open>adsorbed\<close>.
\<close>

function for_index_rect :: "buffered \<Rightarrow> rect \<Rightarrow> real \<Rightarrow> nat \<Rightarrow> rect list \<Rightarrow> rect list \<times> bool" where
  "for_index_rect bd text_area_rect d index target_rects =
     (if index < length target_rects then
        (if is_near bd text_area_rect (target_rects ! index) d
         then (target_rects[index := union_rects text_area_rect (target_rects ! index)], True)
         else for_index_rect bd text_area_rect d (Suc index) target_rects)
      else (target_rects, False))"
  by pat_completeness auto
termination
  by (relation "measure (\<lambda>(bd, text_area_rect, d, index, target_rects). length target_rects - index)")
     auto

declare for_index_rect.simps [simp del]

text \<open>
  The loop \<^verbatim>\<open>for text_area_rect in source_rects\<close>; the state is \<^verbatim>\<open>new_source_rects\<close>
  and the target list.
\<close>

fun for_text_area_rect ::
  "buffered \<Rightarrow> real \<Rightarrow> rect list \<Rightarrow> rect list \<Rightarrow> rect list \<Rightarrow> rect list \<times> rect list" where
  "for_text_area_rect bd d [] new_source_rects target_rects = (new_source_rects, target_rects)"
| "for_text_area_rect bd d (text_area_rect # source_rects) new_source_rects target_rects =
     (case for_index_rect bd text_area_rect d 0 target_rects of
        (target_rects', adsorbed) \<Rightarrow>
          for_text_area_rect bd d source_rects
            (if \<not> adsorbed then new_source_rects @ [text_area_rect] else new_source_rects)
            target_rects')"

text \<open>\<^verbatim>\<open>_adsorb_rects_to_rects\<close>: returns \<^verbatim>\<open>(new_source_rects, target_rects)\<close>.\<close>

definition adsorb_rects_to_rects ::
  "buffered \<Rightarrow> rect list \<Rightarrow> rect list \<Rightarrow> real \<Rightarrow> rect list \<times> rect list" where
  "adsorb_rects_to_rects bd source_rects target_rects d =
     for_text_area_rect bd d source_rects [] target_rects"

text \<open>
  The specification's account of the pass, to compare the code with. The first target,
  in list order, that is near a source:
\<close>

fun first_near_target :: "buffered \<Rightarrow> rect \<Rightarrow> real \<Rightarrow> rect list \<Rightarrow> nat option" where
  "first_near_target bd s d [] = None"
| "first_near_target bd s d (t # ts) =
     (if is_near bd s t d then Some 0 else map_option Suc (first_near_target bd s d ts))"

text \<open>
  The fate of each source, in order: \<open>Some i\<close> when it is unioned into target \<open>i\<close>, which
  is then replaced in place, and \<open>None\<close> when it is left over.
\<close>

fun adsorption_fates :: "buffered \<Rightarrow> real \<Rightarrow> rect list \<Rightarrow> rect list \<Rightarrow> nat option list" where
  "adsorption_fates bd d [] ts = []"
| "adsorption_fates bd d (s # ss) ts =
     (case first_near_target bd s d ts of
        None \<Rightarrow> None # adsorption_fates bd d ss ts
      | Some i \<Rightarrow> Some i # adsorption_fates bd d ss (ts[i := union_rects s (ts ! i)]))"

text \<open>The sources with a given fate, in source order.\<close>

definition sources_with :: "nat option \<Rightarrow> rect list \<Rightarrow> nat option list \<Rightarrow> rect list" where
  "sources_with k ss fates = map fst (filter (\<lambda>(s, f). f = k) (zip ss fates))"

section \<open>The page segmenter\<close>

text \<open>
  What \<^verbatim>\<open>_parse_rects\<close> reads from a page: the \<^verbatim>\<open>'rect'\<close> of each entry of
  \<^verbatim>\<open>page.get_drawings()\<close>, the \<^verbatim>\<open>'bbox'\<close> of each entry of \<^verbatim>\<open>page.get_image_info()\<close>,
  and of each entry \<^verbatim>\<open>x\<close> of \<^verbatim>\<open>page.get_text('blocks')\<close> the box \<^verbatim>\<open>x[:4]\<close> and the text
  \<^verbatim>\<open>x[4]\<close>. An element of the text is one character of the Python string.
\<close>

record page =
  get_drawings :: "bounds list"
  get_image_info :: "bounds list"
  get_text_blocks :: "(bounds \<times> string) list"

text \<open>The lambda \<^verbatim>\<open>is_short_line\<close>, on the \<^verbatim>\<open>'rect'\<close> of a drawing.\<close>

definition is_short_line :: "bounds \<Rightarrow> bool" where
  "is_short_line x \<longleftrightarrow> \<bar>at3 x - at1 x\<bar> < 1 \<and> \<bar>at2 x - at0 x\<bar> < 30"

text \<open>
  \<^verbatim>\<open>s.split('\n')\<close>: the pieces between newline characters; there is always at least
  one piece, and a text that ends in a newline has an empty last piece.
\<close>

definition newline :: char where
  "newline = CHR 0x0A"

fun split_newline :: "string \<Rightarrow> string list" where
  "split_newline [] = [[]]"
| "split_newline (c # cs) =
     (if c = newline then [] # split_newline cs
      else (c # hd (split_newline cs)) # tl (split_newline cs))"

text \<open>
  The lambda \<^verbatim>\<open>is_large_content\<close>:
  \<^verbatim>\<open>(len(x[4]) / max(1, len(x[4].split('\n')))) > 5\<close>, with Python's true division.
\<close>

definition is_large_content :: "bounds \<times> string \<Rightarrow> bool" where
  "is_large_content x \<longleftrightarrow>
     real (length (snd x)) / real (max 1 (length (split_newline (snd x)))) > 5"

definition small_text_area_rects :: "page \<Rightarrow> rect list" where
  "small_text_area_rects pg =
     map (\<lambda>x. box_of (fst x)) (filter (\<lambda>x. \<not> is_large_content x) (get_text_blocks pg))"

definition large_text_area_rects :: "page \<Rightarrow> rect list" where
  "large_text_area_rects pg =
     map (\<lambda>x. box_of (fst x)) (filter (\<lambda>x. is_large_content x) (get_text_blocks pg))"

text \<open>
  The first half of \<^verbatim>\<open>_parse_rects\<close>, up to the validity filter: the drawings that are
  not short lines, then the images, merged at distance 10 and horizontal distance 100,
  and of those the ones for which \<^verbatim>\<open>explain_validity(rect) == 'Valid Geometry'\<close>. That
  test belongs to the geometry library and is the parameter \<open>valid\<close>.
\<close>

definition drawing_and_image_rects :: "page \<Rightarrow> rect list" where
  "drawing_and_image_rects pg =
     (let drawings = filter (\<lambda>x. \<not> is_short_line x) (get_drawings pg);
          rect_list = map box_of drawings;
          image_rects = map box_of (get_image_info pg)
      in rect_list @ image_rects)"

definition valid_merged_rects :: "buffered \<Rightarrow> (rect \<Rightarrow> bool) \<Rightarrow> page \<Rightarrow> rect list" where
  "valid_merged_rects bd valid pg =
     (let merged_rects = merge_rects bd (drawing_and_image_rects pg) 10 (Some 100)
      in filter valid merged_rects)"

text \<open>The size test of the last filter of \<^verbatim>\<open>_parse_rects\<close>.\<close>

definition large_enough :: "rect \<Rightarrow> bool" where
  "large_enough rect \<longleftrightarrow>
     at2 (bounds rect) - at0 (bounds rect) > 20 \<and> at3 (bounds rect) - at1 (bounds rect) > 20"

text \<open>
  \<^verbatim>\<open>_parse_rects\<close>. Both calls of the adsorption pass bind the first component of the
  result to \<^verbatim>\<open>_\<close>.
\<close>

definition parse_rects :: "buffered \<Rightarrow> (rect \<Rightarrow> bool) \<Rightarrow> page \<Rightarrow> bounds list" where
  "parse_rects bd valid pg =
     (let merged_rects = valid_merged_rects bd valid pg;
          (_, merged_rects) = adsorb_rects_to_rects bd (large_text_area_rects pg) merged_rects (1 / 10);
          (_, merged_rects) = adsorb_rects_to_rects bd (small_text_area_rects pg) merged_rects 5;
          merged_rects = merge_rects bd merged_rects 10 None;
          merged_rects = filter large_enough merged_rects
      in map bounds merged_rects)"

text \<open>
  A box built by \<^verbatim>\<open>sg.box\<close> is a valid polygon when it has an extent in both
  directions; used where a concrete validity test is needed.
\<close>

definition box_valid :: "rect \<Rightarrow> bool" where
  "box_valid r \<longleftrightarrow> minx r \<noteq> maxx r \<and> miny r \<noteq> maxy r"

text \<open>
  The specification's wording of the text classes: the average length of the lines of
  a text, a line being a piece between newlines.
\<close>

definition average_line_length :: "string \<Rightarrow> real" where
  "average_line_length t =
     real (sum_list (map length (split_newline t))) / real (length (split_newline t))"


section \<open>The merger and the adsorption pass on list objects\<close>

text \<open>
  \<^verbatim>\<open>_merge_rects\<close> and \<^verbatim>\<open>_adsorb_rects_to_rects\<close> receive references to lists of the
  caller and change lists in place (\<^verbatim>\<open>pop\<close>, \<^verbatim>\<open>remove\<close>, \<^verbatim>\<open>append\<close>, item assignment). The
  functions above give the contents of the returned lists; the functions of this section
  run the same loops on a store of list objects, to say which object holds what after
  the call.
\<close>

text \<open>
  The list objects of the Python heap: \<open>cells st a\<close> is the contents of the list at address
  \<open>a\<close>, and the addresses below \<open>fresh st\<close> are the lists that exist.
\<close>

record store =
  cells :: "nat \<Rightarrow> rect list"
  fresh :: nat

text \<open>A new empty list, as \<^verbatim>\<open>new_rect_list = []\<close> creates one.\<close>

definition new_list :: "store \<Rightarrow> nat \<times> store" where
  "new_list st = (fresh st, st\<lparr>cells := (cells st)(fresh st := []), fresh := Suc (fresh st)\<rparr>)"

text \<open>The contents of a list after it was changed in place.\<close>

definition put :: "nat \<Rightarrow> rect list \<Rightarrow> store \<Rightarrow> store" where
  "put a xs st = st\<lparr>cells := (cells st)(a := xs)\<rparr>"

text \<open>The store holding the given lists at the addresses 0, 1, ...\<close>

definition store_of :: "rect list list \<Rightarrow> store" where
  "store_of ls = \<lparr>cells = (\<lambda>a. if a < length ls then ls ! a else []), fresh = length ls\<rparr>"

lemma round_shorter:
  assumes "(new_rect_list, st1) = new_list st"
    and "(emptied, appended, True) =
           while_rect_list bd d hdist (cells st1 rect_list) (cells st1 new_rect_list) False"
  shows "length (cells (put new_rect_list appended (put rect_list emptied st1)) new_rect_list)
           < length (cells st rect_list)"
proof -
  from assms(1) have new: "new_rect_list = fresh st" and empty: "cells st1 new_rect_list = []"
    and other: "rect_list \<noteq> fresh st \<Longrightarrow> cells st1 rect_list = cells st rect_list"
    by (simp_all add: new_list_def)
  show ?thesis
  proof (cases "rect_list = fresh st")
    case True
    with new empty assms(2) show ?thesis by simp
  next
    case False
    from assms(2) [symmetric] have "length appended < length (cells st1 rect_list)"
      unfolding empty by (auto dest: while_rect_list_effect)
    with other [OF False] show ?thesis by (simp add: put_def)
  qed
qed

text \<open>
  \<^verbatim>\<open>_merge_rects\<close> with the parameter \<^verbatim>\<open>rect_list\<close> as an address. In each round
  \<^verbatim>\<open>new_rect_list\<close> is a new list; the inner loop pops from the list \<^verbatim>\<open>rect_list\<close> refers
  to and appends to the new one; then the variable \<^verbatim>\<open>rect_list\<close> is bound to the new
  list. In the first round \<^verbatim>\<open>rect_list\<close> is the list of the caller.
\<close>

function merge_rects_st :: "buffered \<Rightarrow> nat \<Rightarrow> real \<Rightarrow> real option \<Rightarrow> store \<Rightarrow> nat \<times> store" where
  "merge_rects_st bd rect_list d hdist st =
     (case new_list st of
        (new_rect_list, st1) \<Rightarrow>
          (case while_rect_list bd d hdist (cells st1 rect_list) (cells st1 new_rect_list) False of
             (emptied, appended, merged) \<Rightarrow>
               if merged
               then merge_rects_st bd new_rect_list d hdist
                      (put new_rect_list appended (put rect_list emptied st1))
               else (new_rect_list, put new_rect_list appended (put rect_list emptied st1))))"
  by pat_completeness auto
termination
  by (relation "measure (\<lambda>(bd, rect_list, d, hdist, st). length (cells st rect_list))")
     (auto dest: round_shorter)

declare merge_rects_st.simps [simp del]

text \<open>
  \<^verbatim>\<open>_adsorb_rects_to_rects\<close> with both parameters as addresses of two different lists:
  \<^verbatim>\<open>new_source_rects\<close> is a new list, \<^verbatim>\<open>target_rects[index] = rect\<close> writes into the
  list of the caller, and the returned pair is the new list and the reference
  \<^verbatim>\<open>target_rects\<close> itself.
\<close>

definition adsorb_rects_to_rects_st ::
  "buffered \<Rightarrow> nat \<Rightarrow> nat \<Rightarrow> real \<Rightarrow> store \<Rightarrow> (nat \<times> nat) \<times> store" where
  "adsorb_rects_to_rects_st bd source_rects target_rects d st =
     (case new_list st of
        (new_source_rects, st1) \<Rightarrow>
          (case for_text_area_rect bd d (cells st1 source_rects) (cells st1 new_source_rects)
                  (cells st1 target_rects) of
             (appended, updated) \<Rightarrow>
               ((new_source_rects, target_rects),
                put target_rects updated (put new_source_rects appended st1))))"

section \<open>Union\<close>

lemma bounds_Box_ordered:
  "a \<le> c \<Longrightarrow> b \<le> d \<Longrightarrow> bounds (Box a b c d) = (a, b, c, d)"
  by (simp add: bounds_def)

lemma bounds_ordered:
  "at0 (bounds r) \<le> at2 (bounds r) \<and> at1 (bounds r) \<le> at3 (bounds r)"
  by (simp add: bounds_def min_le_iff_disj le_max_iff_disj)

lemma bounds_union_rects: "bounds (union_rects a b) = union_bounds a b"
proof -
  have x: "min (at0 (bounds a)) (at0 (bounds b)) \<le> max (at2 (bounds a)) (at2 (bounds b))"
    using bounds_ordered [of a] by (simp add: min_le_iff_disj le_max_iff_disj)
  have y: "min (at1 (bounds a)) (at1 (bounds b)) \<le> max (at3 (bounds a)) (at3 (bounds b))"
    using bounds_ordered [of a] by (simp add: min_le_iff_disj le_max_iff_disj)
  show ?thesis
    unfolding union_rects_def union_bounds_def box_of.simps
    by (rule bounds_Box_ordered [OF x y])
qed

text \<open>
  C3: \<open>union_rects a b\<close> is the box whose lower-left corner is the componentwise minimum
  of the two lower-left corners and whose upper-right corner is the componentwise
  maximum of the two upper-right corners, and these are also its bounds.
\<close>

theorem union_rects_min_max:
  "union_rects a b =
     Box (min (at0 (bounds a)) (at0 (bounds b))) (min (at1 (bounds a)) (at1 (bounds b)))
         (max (at2 (bounds a)) (at2 (bounds b))) (max (at3 (bounds a)) (at3 (bounds b)))
   \<and> bounds (union_rects a b) =
     (min (at0 (bounds a)) (at0 (bounds b)), min (at1 (bounds a)) (at1 (bounds b)),
      max (at2 (bounds a)) (at2 (bounds b)), max (at3 (bounds a)) (at3 (bounds b)))"
proof
  show "union_rects a b =
     Box (min (at0 (bounds a)) (at0 (bounds b))) (min (at1 (bounds a)) (at1 (bounds b)))
         (max (at2 (bounds a)) (at2 (bounds b))) (max (at3 (bounds a)) (at3 (bounds b)))"
    by (simp add: union_rects_def union_bounds_def)
  show "bounds (union_rects a b) =
     (min (at0 (bounds a)) (at0 (bounds b)), min (at1 (bounds a)) (at1 (bounds b)),
      max (at2 (bounds a)) (at2 (bounds b)), max (at3 (bounds a)) (at3 (bounds b)))"
    using bounds_union_rects [of a b] by (simp add: union_bounds_def)
qed

section \<open>Evaluating the proximity test\<close>

text \<open>The test of \<open>is_near\<close> at the exact distance, without the square root.\<close>

lemma is_near_iff:
  "is_near buffer_distance r1 r2 d \<longleftrightarrow> 0 < d \<and> (xgap r1 r2)\<^sup>2 + (ygap r1 r2)\<^sup>2 < (d + 1 / 5)\<^sup>2"
proof (cases "0 < d")
  case False
  then show ?thesis by (simp add: is_near_def buffer_distance_def)
next
  case True
  then have pos: "0 \<le> d + 1 / 5" by simp
  have "is_near buffer_distance r1 r2 d \<longleftrightarrow> sqrt ((xgap r1 r2)\<^sup>2 + (ygap r1 r2)\<^sup>2) < d + 1 / 5"
    using True by (auto simp: is_near_def buffer_distance_def box_distance_def)
  also have "\<dots> \<longleftrightarrow> sqrt ((xgap r1 r2)\<^sup>2 + (ygap r1 r2)\<^sup>2) < sqrt ((d + 1 / 5)\<^sup>2)"
    using pos by simp
  also have "\<dots> \<longleftrightarrow> (xgap r1 r2)\<^sup>2 + (ygap r1 r2)\<^sup>2 < (d + 1 / 5)\<^sup>2"
    by (rule real_sqrt_less_iff)
  finally show ?thesis using True by simp
qed

lemmas ev = merge_rects.simps while_rect_list.simps for_other_rect.simps merge_test_def is_near_iff
  xgap_def ygap_def gap_def bounds_def union_rects_def union_bounds_def is_horizontal_near_def


section \<open>Scenarios of the merger\<close>

text \<open>
  C4: on the two rectangles (0,0,50,50) and (55,0,100,50) the merger returns the single
  rectangle (0,0,100,50) at distance 10 and the two rectangles unchanged at distance 4,
  whatever the horizontal distance is.
\<close>

theorem merge_rects_scenario_A_B:
  "merge_rects buffer_distance [Box 0 0 50 50, Box 55 0 100 50] 10 hdist = [Box 0 0 100 50]
   \<and> merge_rects buffer_distance [Box 0 0 50 50, Box 55 0 100 50] 4 hdist = [Box 0 0 50 50, Box 55 0 100 50]"
  by (simp add: ev power2_eq_square split: option.splits)

text \<open>
  C5: with horizontal distance 100 the merger unions the line (10,100,90,100.05) and the
  block (10,105,90,140) into (10,100,90,140), for every proximity distance; and
  \<open>is_horizontal_near a b d\<close> holds exactly when one of the two is less than 0.1 high,
  the left edges and the right edges each differ by less than 0.1, and the upper edges
  differ by less than \<open>d\<close>.
\<close>

theorem is_horizontal_near_scenario_C:
  "merge_rects buffer_distance [Box 10 100 90 100.05, Box 10 105 90 140] d (Some 100) = [Box 10 100 90 140]
   \<and> (is_horizontal_near a b e \<longleftrightarrow>
        (\<bar>at3 (bounds a) - at1 (bounds a)\<bar> < 0.1 \<or> \<bar>at3 (bounds b) - at1 (bounds b)\<bar> < 0.1)
        \<and> \<bar>at0 (bounds a) - at0 (bounds b)\<bar> < 0.1
        \<and> \<bar>at2 (bounds a) - at2 (bounds b)\<bar> < 0.1
        \<and> \<bar>at3 (bounds a) - at3 (bounds b)\<bar> < e)"
proof
  show "merge_rects buffer_distance [Box 10 100 90 100.05, Box 10 105 90 140] d (Some 100) = [Box 10 100 90 140]"
    by (simp add: ev power2_eq_square)
  show "is_horizontal_near a b e \<longleftrightarrow>
        (\<bar>at3 (bounds a) - at1 (bounds a)\<bar> < 0.1 \<or> \<bar>at3 (bounds b) - at1 (bounds b)\<bar> < 0.1)
        \<and> \<bar>at0 (bounds a) - at0 (bounds b)\<bar> < 0.1
        \<and> \<bar>at2 (bounds a) - at2 (bounds b)\<bar> < 0.1
        \<and> \<bar>at3 (bounds a) - at3 (bounds b)\<bar> < e"
    unfolding is_horizontal_near_def by auto
qed

section \<open>The merger reaches a fixed point\<close>















section \<open>The merger takes finitely many rounds\<close>

lemma pass_merged_shorter:
  "pass_merged bd d hdist rect_list \<Longrightarrow> length (pass_list bd d hdist rect_list) < length rect_list"
  using while_rect_list_effect [of bd d hdist rect_list "[]" False
      "fst (while_rect_list bd d hdist rect_list [] False)" "pass_list bd d hdist rect_list"
      "pass_merged bd d hdist rect_list"]
  by (simp add: pass_list_def pass_merged_def prod_eq_iff)

lemma pass_list_length: "length (pass_list bd d hdist rect_list) \<le> length rect_list"
  using while_rect_list_effect [of bd d hdist rect_list "[]" False
      "fst (while_rect_list bd d hdist rect_list [] False)" "pass_list bd d hdist rect_list"
      "pass_merged bd d hdist rect_list"]
  by (simp add: pass_list_def pass_merged_def prod_eq_iff)

lemma merge_rects_unfold:
  "merge_rects bd rect_list d hdist =
     (if pass_merged bd d hdist rect_list then merge_rects bd (pass_list bd d hdist rect_list) d hdist
      else pass_list bd d hdist rect_list)"
  by (simp add: merge_rects.simps [of bd rect_list] pass_list_def pass_merged_def split: prod.splits)

lemma merge_rects_rounds:
  "\<exists>n\<le>length rect_list.
      (\<forall>k<n. pass_merged bd d hdist ((pass_list bd d hdist ^^ k) rect_list))
      \<and> \<not> pass_merged bd d hdist ((pass_list bd d hdist ^^ n) rect_list)
      \<and> merge_rects bd rect_list d hdist = (pass_list bd d hdist ^^ Suc n) rect_list"
proof (induction "length rect_list" arbitrary: rect_list rule: less_induct)
  case less
  show ?case
  proof (cases "pass_merged bd d hdist rect_list")
    case False
    then have "merge_rects bd rect_list d hdist = pass_list bd d hdist rect_list"
      by (simp add: merge_rects_unfold [of bd rect_list])
    with False show ?thesis
      by (intro exI [of _ 0]) simp
  next
    case True
    let ?next = "pass_list bd d hdist rect_list"
    from True have shorter: "length ?next < length rect_list"
      by (rule pass_merged_shorter)
    from less [OF shorter] obtain n where n: "n \<le> length ?next"
      and before: "\<forall>k<n. pass_merged bd d hdist ((pass_list bd d hdist ^^ k) ?next)"
      and last: "\<not> pass_merged bd d hdist ((pass_list bd d hdist ^^ n) ?next)"
      and res: "merge_rects bd ?next d hdist = (pass_list bd d hdist ^^ Suc n) ?next"
      by blast
    have shift: "(pass_list bd d hdist ^^ k) ?next = (pass_list bd d hdist ^^ Suc k) rect_list" for k
      by (simp add: funpow_swap1)
    have "\<forall>k<Suc n. pass_merged bd d hdist ((pass_list bd d hdist ^^ k) rect_list)"
    proof (intro allI impI)
      fix k assume k: "k < Suc n"
      show "pass_merged bd d hdist ((pass_list bd d hdist ^^ k) rect_list)"
      proof (cases k)
        case 0
        with True show ?thesis by simp
      next
        case (Suc k')
        with k before have "pass_merged bd d hdist ((pass_list bd d hdist ^^ k') ?next)" by simp
        then show ?thesis unfolding shift Suc .
      qed
    qed
    moreover have "\<not> pass_merged bd d hdist ((pass_list bd d hdist ^^ Suc n) rect_list)"
      using last unfolding shift .
    moreover have "merge_rects bd rect_list d hdist = (pass_list bd d hdist ^^ Suc (Suc n)) rect_list"
      using True res unfolding shift by (simp only: merge_rects_unfold [of bd rect_list] if_True)
    moreover have "Suc n \<le> length rect_list"
      using n shorter by simp
    ultimately show ?thesis by blast
  qed
qed


text \<open>
  C9: the merger stops. Some round \<open>n\<close>, at most the length of the input, merges
  nothing, every round before it merges, and the result is the list after that round;
  a round that merges returns a strictly shorter list.
\<close>

theorem merge_rects_terminates:
  "(\<exists>n\<le>length rect_list.
      (\<forall>k<n. pass_merged bd d hdist ((pass_list bd d hdist ^^ k) rect_list))
      \<and> \<not> pass_merged bd d hdist ((pass_list bd d hdist ^^ n) rect_list)
      \<and> merge_rects bd rect_list d hdist = (pass_list bd d hdist ^^ Suc n) rect_list)
   \<and> (pass_merged bd d hdist rect_list \<longrightarrow>
        length (pass_list bd d hdist rect_list) < length rect_list)"
  using merge_rects_rounds [of rect_list bd d hdist] pass_merged_shorter [of bd d hdist rect_list]
  by blast

theorem merge_rects_terminates_witness:
  "pass_merged buffer_distance 10 None [Box 0 0 50 50, Box 55 0 100 50, Box 0 55 50 100]
   \<and> pass_list buffer_distance 10 None [Box 0 0 50 50, Box 55 0 100 50, Box 0 55 50 100]
       = [Box 0 0 100 50, Box 0 55 50 100]
   \<and> length (pass_list buffer_distance 10 None [Box 0 0 50 50, Box 55 0 100 50, Box 0 55 50 100]) < 3
   \<and> (\<exists>n\<le>3.
        (\<forall>k<n. pass_merged buffer_distance 10 None
                  ((pass_list buffer_distance 10 None ^^ k) [Box 0 0 50 50, Box 55 0 100 50, Box 0 55 50 100]))
        \<and> merge_rects buffer_distance [Box 0 0 50 50, Box 55 0 100 50, Box 0 55 50 100] 10 None
            = (pass_list buffer_distance 10 None ^^ Suc n) [Box 0 0 50 50, Box 55 0 100 50, Box 0 55 50 100])"
proof -
  have merged: "pass_merged buffer_distance 10 None [Box 0 0 50 50, Box 55 0 100 50, Box 0 55 50 100]"
    by (simp add: pass_merged_def ev power2_eq_square)
  have pass: "pass_list buffer_distance 10 None [Box 0 0 50 50, Box 55 0 100 50, Box 0 55 50 100]
       = [Box 0 0 100 50, Box 0 55 50 100]"
    by (simp add: pass_list_def ev power2_eq_square)
  have len: "length [Box 0 0 50 50, Box 55 0 100 50, Box 0 55 50 100] = 3"
    by simp
  have "\<exists>n\<le>3.
        (\<forall>k<n. pass_merged buffer_distance 10 None
                  ((pass_list buffer_distance 10 None ^^ k) [Box 0 0 50 50, Box 55 0 100 50, Box 0 55 50 100]))
        \<and> merge_rects buffer_distance [Box 0 0 50 50, Box 55 0 100 50, Box 0 55 50 100] 10 None
            = (pass_list buffer_distance 10 None ^^ Suc n) [Box 0 0 50 50, Box 55 0 100 50, Box 0 55 50 100]"
    using merge_rects_terminates [of "[Box 0 0 50 50, Box 55 0 100 50, Box 0 55 50 100]" buffer_distance 10 None]
    unfolding len by blast
  with merged pass show ?thesis by simp
qed

section \<open>The adsorption pass accounts for every source\<close>

lemma first_near_target_Some:
  "first_near_target bd s d ts = Some i \<longleftrightarrow>
     i < length ts \<and> is_near bd s (ts ! i) d \<and> (\<forall>j<i. \<not> is_near bd s (ts ! j) d)"
proof (induction ts arbitrary: i)
  case Nil
  show ?case by simp
next
  case (Cons t ts)
  show ?case
  proof (cases "is_near bd s t d")
    case True
    show ?thesis
    proof (cases i)
      case 0
      with True show ?thesis by simp
    next
      case (Suc k)
      with True show ?thesis by auto
    qed
  next
    case False
    show ?thesis
    proof (cases i)
      case 0
      with False show ?thesis by simp
    next
      case (Suc k)
      have "(\<forall>j<Suc k. \<not> is_near bd s ((t # ts) ! j) d) \<longleftrightarrow> (\<forall>j<k. \<not> is_near bd s (ts ! j) d)"
        using False by (auto simp: less_Suc_eq_0_disj)
      with False Suc Cons.IH [of k] show ?thesis by auto
    qed
  qed
qed

lemma first_near_target_None:
  "first_near_target bd s d ts = None \<longleftrightarrow> (\<forall>t \<in> set ts. \<not> is_near bd s t d)"
  by (induction ts) auto

lemma for_index_rect_from:
  "for_index_rect bd s d k ts =
     (case first_near_target bd s d (drop k ts) of
        None \<Rightarrow> (ts, False)
      | Some i \<Rightarrow> (ts[k + i := union_rects s (ts ! (k + i))], True))"
proof (induction "length ts - k" arbitrary: k)
  case 0
  then show ?case by (simp add: for_index_rect.simps [of bd s d k])
next
  case (Suc n)
  then have inside: "k < length ts" and rest: "n = length ts - Suc k"
    by simp_all
  have split: "drop k ts = ts ! k # drop (Suc k) ts"
    using inside by (simp add: Cons_nth_drop_Suc)
  show ?case
  proof (cases "is_near bd s (ts ! k) d")
    case True
    with inside show ?thesis
      by (simp add: for_index_rect.simps [of bd s d k] split)
  next
    case False
    with inside Suc.hyps(1) [OF rest] show ?thesis
      by (simp add: for_index_rect.simps [of bd s d k] split split: option.splits)
  qed
qed

lemma for_index_rect_first:
  "for_index_rect bd s d 0 ts =
     (case first_near_target bd s d ts of
        None \<Rightarrow> (ts, False)
      | Some i \<Rightarrow> (ts[i := union_rects s (ts ! i)], True))"
  using for_index_rect_from [of bd s d 0 ts] by (simp split: option.splits)

lemma for_text_area_rect_acc:
  "for_text_area_rect bd d ss new ts =
     (new @ fst (for_text_area_rect bd d ss [] ts), snd (for_text_area_rect bd d ss [] ts))"
proof (induction ss arbitrary: new ts)
  case Nil
  show ?case by simp
next
  case (Cons s ss)
  obtain ts' a where scan: "for_index_rect bd s d 0 ts = (ts', a)"
    by (cases "for_index_rect bd s d 0 ts") auto
  show ?case
    using Cons.IH [of "new @ [s]" ts'] Cons.IH [of "[s]" ts'] Cons.IH [of new ts']
    by (simp add: scan)
qed

lemma adsorb_Nil: "adsorb_rects_to_rects bd [] ts d = ([], ts)"
  by (simp add: adsorb_rects_to_rects_def)

lemma adsorb_Cons:
  "adsorb_rects_to_rects bd (s # ss) ts d =
     (case first_near_target bd s d ts of
        None \<Rightarrow> (s # fst (adsorb_rects_to_rects bd ss ts d), snd (adsorb_rects_to_rects bd ss ts d))
      | Some i \<Rightarrow> adsorb_rects_to_rects bd ss (ts[i := union_rects s (ts ! i)]) d)"
proof (cases "first_near_target bd s d ts")
  case None
  then have "for_index_rect bd s d 0 ts = (ts, False)"
    by (simp add: for_index_rect_first)
  with None for_text_area_rect_acc [of bd d ss "[s]" ts] show ?thesis
    by (simp add: adsorb_rects_to_rects_def)
next
  case (Some i)
  then have "for_index_rect bd s d 0 ts = (ts[i := union_rects s (ts ! i)], True)"
    by (simp add: for_index_rect_first)
  with Some show ?thesis
    by (simp add: adsorb_rects_to_rects_def)
qed

lemma adsorption_fates_length: "length (adsorption_fates bd d ss ts) = length ss"
  by (induction ss arbitrary: ts) (auto split: option.splits)

lemma adsorb_targets_length: "length (snd (adsorb_rects_to_rects bd ss ts d)) = length ts"
  by (induction ss arbitrary: ts) (auto simp: adsorb_Nil adsorb_Cons split: option.splits)

lemma adsorb_leftover:
  "fst (adsorb_rects_to_rects bd ss ts d) = sources_with None ss (adsorption_fates bd d ss ts)"
  by (induction ss arbitrary: ts)
     (auto simp: adsorb_Nil adsorb_Cons sources_with_def split: option.splits)

lemma adsorb_targets:
  "j < length ts \<Longrightarrow>
     snd (adsorb_rects_to_rects bd ss ts d) ! j =
       foldl (\<lambda>t s. union_rects s t) (ts ! j) (sources_with (Some j) ss (adsorption_fates bd d ss ts))"
proof (induction ss arbitrary: ts)
  case Nil
  show ?case by (simp add: adsorb_Nil sources_with_def)
next
  case (Cons s ss)
  show ?case
  proof (cases "first_near_target bd s d ts")
    case None
    with Cons.IH [OF Cons.prems] show ?thesis
      by (simp add: adsorb_Cons sources_with_def)
  next
    case (Some i)
    let ?ts = "ts[i := union_rects s (ts ! i)]"
    from Cons.prems have j: "j < length ?ts" by simp
    from Some Cons.IH [OF j] Cons.prems show ?thesis
      by (cases "i = j") (simp_all add: adsorb_Cons sources_with_def)
  qed
qed

lemma adsorb_take_Suc:
  "snd (adsorb_rects_to_rects bd (take (Suc n) (s # ss)) ts d) =
     snd (adsorb_rects_to_rects bd (take n ss)
            (case first_near_target bd s d ts of None \<Rightarrow> ts
             | Some i \<Rightarrow> ts[i := union_rects s (ts ! i)]) d)"
  by (simp add: adsorb_Cons split: option.splits)

lemma adsorption_fates_nth:
  "n < length ss \<Longrightarrow>
     adsorption_fates bd d ss ts ! n =
       first_near_target bd (ss ! n) d (snd (adsorb_rects_to_rects bd (take n ss) ts d))"
proof (induction ss arbitrary: ts n)
  case Nil
  then show ?case by simp
next
  case (Cons s ss)
  show ?case
  proof (cases n)
    case 0
    then show ?thesis by (simp add: adsorb_Nil split: option.splits)
  next
    case (Suc m)
    with Cons.prems have m: "m < length ss" by simp
    show ?thesis
      unfolding Suc adsorb_take_Suc
      using Cons.IH [OF m] by (simp split: option.splits)
  qed
qed


lemma adsorb_leftover_subseq: "subseq (fst (adsorb_rects_to_rects bd ss ts d)) ss"
  by (induction ss arbitrary: ts) (auto simp: adsorb_Nil adsorb_Cons split: option.splits)

lemma adsorption_fates_in_range:
  assumes "n < length ss" and "adsorption_fates bd d ss ts ! n = Some i"
  shows "i < length ts"
proof -
  from assms adsorption_fates_nth [of n ss bd d ts]
  have "first_near_target bd (ss ! n) d (snd (adsorb_rects_to_rects bd (take n ss) ts d)) = Some i"
    by simp
  then have "i < length (snd (adsorb_rects_to_rects bd (take n ss) ts d))"
    by (simp add: first_near_target_Some)
  then show ?thesis by (simp add: adsorb_targets_length)
qed

text \<open>
  C2: every source has exactly one fate, decided against the target list as the earlier
  sources left it: \<open>Some i\<close> for the first target in list order that is near it, or
  \<open>None\<close>. The returned leftovers are exactly the sources with fate \<open>None\<close>, in source
  order; the returned target list has the length of the given one, and its entry \<open>j\<close> is
  the given entry \<open>j\<close> with the sources of fate \<open>Some j\<close> unioned into it one after the
  other, so a source is only ever unioned with a target entry.
\<close>

theorem adsorb_rects_to_rects_conservation:
  "length (adsorption_fates bd d source_rects target_rects) = length source_rects
   \<and> (\<forall>n<length source_rects.
        adsorption_fates bd d source_rects target_rects ! n =
          first_near_target bd (source_rects ! n) d
            (snd (adsorb_rects_to_rects bd (take n source_rects) target_rects d))
        \<and> (\<forall>i. adsorption_fates bd d source_rects target_rects ! n = Some i \<longrightarrow>
               i < length target_rects))
   \<and> (\<forall>s ts i. first_near_target bd s d ts = Some i \<longleftrightarrow>
         i < length ts \<and> is_near bd s (ts ! i) d \<and> (\<forall>j<i. \<not> is_near bd s (ts ! j) d))
   \<and> fst (adsorb_rects_to_rects bd source_rects target_rects d) =
       sources_with None source_rects (adsorption_fates bd d source_rects target_rects)
   \<and> subseq (fst (adsorb_rects_to_rects bd source_rects target_rects d)) source_rects
   \<and> length (snd (adsorb_rects_to_rects bd source_rects target_rects d)) = length target_rects
   \<and> (\<forall>j<length target_rects.
        snd (adsorb_rects_to_rects bd source_rects target_rects d) ! j =
          foldl (\<lambda>t s. union_rects s t) (target_rects ! j)
            (sources_with (Some j) source_rects (adsorption_fates bd d source_rects target_rects)))"
proof (intro conjI)
  show "length (adsorption_fates bd d source_rects target_rects) = length source_rects"
    by (rule adsorption_fates_length)
  show "\<forall>n<length source_rects.
        adsorption_fates bd d source_rects target_rects ! n =
          first_near_target bd (source_rects ! n) d
            (snd (adsorb_rects_to_rects bd (take n source_rects) target_rects d))
        \<and> (\<forall>i. adsorption_fates bd d source_rects target_rects ! n = Some i \<longrightarrow>
               i < length target_rects)"
    using adsorption_fates_nth [of _ source_rects bd d target_rects]
      adsorption_fates_in_range [of _ source_rects bd d target_rects]
    by blast
  show "\<forall>s ts i. first_near_target bd s d ts = Some i \<longleftrightarrow>
         i < length ts \<and> is_near bd s (ts ! i) d \<and> (\<forall>j<i. \<not> is_near bd s (ts ! j) d)"
    using first_near_target_Some [of bd _ d] by blast
  show "fst (adsorb_rects_to_rects bd source_rects target_rects d) =
       sources_with None source_rects (adsorption_fates bd d source_rects target_rects)"
    by (rule adsorb_leftover)
  show "subseq (fst (adsorb_rects_to_rects bd source_rects target_rects d)) source_rects"
    by (rule adsorb_leftover_subseq)
  show "length (snd (adsorb_rects_to_rects bd source_rects target_rects d)) = length target_rects"
    by (rule adsorb_targets_length)
  show "\<forall>j<length target_rects.
        snd (adsorb_rects_to_rects bd source_rects target_rects d) ! j =
          foldl (\<lambda>t s. union_rects s t) (target_rects ! j)
            (sources_with (Some j) source_rects (adsorption_fates bd d source_rects target_rects))"
    using adsorb_targets [of _ target_rects bd source_rects d] by blast
qed

lemmas ev_near = is_near_iff xgap_def ygap_def gap_def bounds_def union_rects_def union_bounds_def
  power2_eq_square

theorem adsorb_rects_to_rects_conservation_witness:
  "adsorption_fates buffer_distance 5 [Box 300 300 310 310, Box 48 0 52 10] [Box 0 0 50 50, Box 200 0 250 50]
     = [None, Some 0]
   \<and> fst (adsorb_rects_to_rects buffer_distance [Box 300 300 310 310, Box 48 0 52 10]
            [Box 0 0 50 50, Box 200 0 250 50] 5) = [Box 300 300 310 310]
   \<and> length (snd (adsorb_rects_to_rects buffer_distance [Box 300 300 310 310, Box 48 0 52 10]
                    [Box 0 0 50 50, Box 200 0 250 50] 5)) = 2
   \<and> snd (adsorb_rects_to_rects buffer_distance [Box 300 300 310 310, Box 48 0 52 10]
            [Box 0 0 50 50, Box 200 0 250 50] 5) ! 0 = Box 0 0 52 50
   \<and> snd (adsorb_rects_to_rects buffer_distance [Box 300 300 310 310, Box 48 0 52 10]
            [Box 0 0 50 50, Box 200 0 250 50] 5) ! 1 = Box 200 0 250 50"
proof -
  let ?S = "[Box 300 300 310 310, Box 48 0 52 10]"
  let ?T = "[Box 0 0 50 50, Box 200 0 250 50]"
  have fates: "adsorption_fates buffer_distance 5 ?S ?T = [None, Some 0]"
    by (simp add: ev_near)
  note inst = adsorb_rects_to_rects_conservation [of buffer_distance 5 ?S ?T, unfolded fates]
  from inst have left: "fst (adsorb_rects_to_rects buffer_distance ?S ?T 5) = [Box 300 300 310 310]"
    by (simp add: sources_with_def)
  from inst have len: "length (snd (adsorb_rects_to_rects buffer_distance ?S ?T 5)) = 2"
    by simp
  from inst have all: "\<forall>j<length ?T. snd (adsorb_rects_to_rects buffer_distance ?S ?T 5) ! j =
          foldl (\<lambda>t s. union_rects s t) (?T ! j) (sources_with (Some j) ?S [None, Some 0])"
    by blast
  from all [rule_format, of 0] have t0: "snd (adsorb_rects_to_rects buffer_distance ?S ?T 5) ! 0 = Box 0 0 52 50"
    by (simp add: sources_with_def union_rects_def union_bounds_def bounds_def)
  from all [rule_format, of 1] have t1: "snd (adsorb_rects_to_rects buffer_distance ?S ?T 5) ! 1 = Box 200 0 250 50"
    by (simp add: sources_with_def)
  from fates left len t0 t1 show ?thesis by blast
qed


section \<open>The page segmenter: the final size filter\<close>

lemma parse_rects_unfold:
  "parse_rects bd valid pg =
     map bounds (filter large_enough
       (merge_rects bd
          (snd (adsorb_rects_to_rects bd (small_text_area_rects pg)
                  (snd (adsorb_rects_to_rects bd (large_text_area_rects pg)
                          (valid_merged_rects bd valid pg) (1 / 10))) 5))
          10 None))"
  by (simp add: parse_rects_def Let_def split: prod.splits)

text \<open>
  C6: every rectangle the page segmenter returns is more than 20 wide and more than 20
  high; the rectangle (5,5,15,15) is never returned, and a page whose only content is a
  text block at (5,5,15,15) yields no region at all.
\<close>

theorem parse_rects_size_filter:
  "(\<forall>b \<in> set (parse_rects bd valid pg). at2 b - at0 b > 20 \<and> at3 b - at1 b > 20)
   \<and> (5, 5, 15, 15) \<notin> set (parse_rects bd valid pg)
   \<and> parse_rects bd valid
        \<lparr>get_drawings = [], get_image_info = [], get_text_blocks = [((5, 5, 15, 15), t)]\<rparr> = []"
proof (intro conjI)
  show big: "\<forall>b \<in> set (parse_rects bd valid pg). at2 b - at0 b > 20 \<and> at3 b - at1 b > 20"
    by (auto simp: parse_rects_unfold large_enough_def)
  show "(5, 5, 15, 15) \<notin> set (parse_rects bd valid pg)"
  proof
    assume "(5, 5, 15, 15) \<in> set (parse_rects bd valid pg)"
    with big have "at2 (5, 5, 15, 15) - at0 (5, 5, 15, 15) > (20::real)" by blast
    then show False by simp
  qed
  show "parse_rects bd valid
        \<lparr>get_drawings = [], get_image_info = [], get_text_blocks = [((5, 5, 15, 15), t)]\<rparr> = []"
    by (simp add: parse_rects_unfold valid_merged_rects_def drawing_and_image_rects_def
        merge_rects.simps adsorb_targets_length [of _ _ "[]", simplified])
qed

section \<open>The page segmenter: large and small text\<close>

lemma split_newline_nonempty: "split_newline t \<noteq> []"
  by (induction t) auto

lemma split_newline_length: "length (split_newline t) = Suc (count_list t newline)"
  using split_newline_nonempty by (induction t) auto

lemma is_large_content_iff:
  "is_large_content x \<longleftrightarrow> 5 * (count_list (snd x) newline + 1) < length (snd x)"
proof -
  let ?n = "length (snd x)" and ?k = "count_list (snd x) newline + 1"
  have "is_large_content x \<longleftrightarrow> 5 < real ?n / real ?k"
    by (simp add: is_large_content_def split_newline_length)
  also have "\<dots> \<longleftrightarrow> 5 * real ?k < real ?n"
    by (simp add: pos_less_divide_eq)
  also have "\<dots> \<longleftrightarrow> real (5 * ?k) < real ?n"
    by simp
  also have "\<dots> \<longleftrightarrow> 5 * ?k < ?n"
    by (simp only: of_nat_less_iff)
  finally show ?thesis .
qed

text \<open>
  C7, as stated: a block is large exactly when the average length of its lines exceeds
  5. The block with the two lines \<open>aaaaa\<close> and \<open>aaaaa\<close> has average line length 5, and the
  code classifies it as large: it divides the length of the whole text, the newline
  included, by the number of lines.
\<close>

theorem large_content_not_average_counterexample:
  "is_large_content ((0, 0, 100, 30), ''aaaaa'' @ [newline] @ ''aaaaa'')
   \<and> \<not> (average_line_length (''aaaaa'' @ [newline] @ ''aaaaa'') > 5)"
  by (simp add: is_large_content_def average_line_length_def newline_def)

text \<open>
  C7, amended: a block is large exactly when the number of characters of its text,
  newline characters included, exceeds 5 times the number of its lines (one more than
  the number of newlines); the large blocks are adsorbed first, at distance 0.1, the
  small ones (all others) after them at distance 5.
\<close>

theorem text_classes:
  "(is_large_content x \<longleftrightarrow> 5 * (count_list (snd x) newline + 1) < length (snd x))
   \<and> length (split_newline (snd x)) = count_list (snd x) newline + 1
   \<and> large_text_area_rects pg =
        map (\<lambda>x. box_of (fst x)) (filter is_large_content (get_text_blocks pg))
   \<and> small_text_area_rects pg =
        map (\<lambda>x. box_of (fst x)) (filter (\<lambda>x. \<not> is_large_content x) (get_text_blocks pg))
   \<and> parse_rects bd valid pg =
        map bounds (filter large_enough
          (merge_rects bd
             (snd (adsorb_rects_to_rects bd (small_text_area_rects pg)
                     (snd (adsorb_rects_to_rects bd (large_text_area_rects pg)
                             (valid_merged_rects bd valid pg) (1 / 10))) 5))
             10 None))"
  using is_large_content_iff [of x] split_newline_length [of "snd x"]
    parse_rects_unfold [of bd valid pg]
  by (simp add: large_text_area_rects_def small_text_area_rects_def)

section \<open>The page segmenter: regions come from drawings and images\<close>

















section \<open>A page with a drawing and two text blocks\<close>

lemmas ev_page = parse_rects_unfold valid_merged_rects_def drawing_and_image_rects_def
  large_text_area_rects_def small_text_area_rects_def is_large_content_iff is_short_line_def
  adsorb_Cons adsorb_Nil large_enough_def box_valid_def newline_def

lemma page_example:
  "parse_rects buffer_distance box_valid
     \<lparr>get_drawings = [(100, 100, 200, 200)], get_image_info = [],
      get_text_blocks = [((300, 300, 400, 400), ''a paragraph of body text''),
                         ((5, 5, 15, 15), ''note'')]\<rparr>
   = [(100, 100, 200, 200)]"
  by (simp add: ev_page ev power2_eq_square)

theorem parse_rects_size_filter_witness:
  "parse_rects buffer_distance box_valid
     \<lparr>get_drawings = [(100, 100, 200, 200)], get_image_info = [],
      get_text_blocks = [((300, 300, 400, 400), ''a paragraph of body text''),
                         ((5, 5, 15, 15), ''note'')]\<rparr>
   = [(100, 100, 200, 200)]
   \<and> at2 (100, 100, 200, 200) - at0 (100, 100, 200, 200) > (20 :: real)
   \<and> at3 (100, 100, 200, 200) - at1 (100, 100, 200, 200) > (20 :: real)"
proof -
  let ?pg = "\<lparr>get_drawings = [(100, 100, 200, 200)], get_image_info = [],
      get_text_blocks = [((300, 300, 400, 400), ''a paragraph of body text''),
                         ((5, 5, 15, 15), ''note'')]\<rparr>"
  have "\<forall>b \<in> set (parse_rects buffer_distance box_valid ?pg). at2 b - at0 b > 20 \<and> at3 b - at1 b > 20"
    using parse_rects_size_filter [of buffer_distance box_valid ?pg] by blast
  then have "\<forall>b \<in> set [(100, 100, 200, 200)]. at2 b - at0 b > (20 :: real) \<and> at3 b - at1 b > 20"
    unfolding page_example .
  with page_example show ?thesis by simp
qed


section \<open>What the merger and the adsorption pass do to the lists of the caller\<close>

lemma merge_rects_st_effect:
  "rect_list < fresh st \<Longrightarrow> merge_rects_st bd rect_list d hdist st = (res, st') \<Longrightarrow>
     fresh st \<le> res \<and> res < fresh st'
     \<and> cells st' res = merge_rects bd (cells st rect_list) d hdist
     \<and> cells st' rect_list = []
     \<and> (\<forall>a<fresh st. a \<noteq> rect_list \<longrightarrow> cells st' a = cells st a)"
proof (induction bd rect_list d hdist st arbitrary: res st' rule: merge_rects_st.induct)
  case (1 bd rect_list d hdist st)
  define st1 where "st1 = snd (new_list st)"
  have alloc: "new_list st = (fresh st, st1)"
    by (simp add: st1_def new_list_def)
  from "1.prems"(1) have old: "cells st1 rect_list = cells st rect_list"
    and empty: "cells st1 (fresh st) = []" and next1: "fresh st1 = Suc (fresh st)"
    and same1: "\<And>a. a \<noteq> fresh st \<Longrightarrow> cells st1 a = cells st a"
    by (simp_all add: st1_def new_list_def)
  obtain e app m where pass: "while_rect_list bd d hdist (cells st rect_list) [] False = (e, app, m)"
    by (cases "while_rect_list bd d hdist (cells st rect_list) [] False") auto
  from while_rect_list_effect [OF pass] have e: "e = []" by simp
  define st2 where "st2 = put (fresh st) app (put rect_list e st1)"
  from "1.prems"(1) have new2: "cells st2 (fresh st) = app"
    and old2: "cells st2 rect_list = []" and next2: "fresh st2 = Suc (fresh st)"
    and same2: "\<And>a. a \<noteq> fresh st \<Longrightarrow> a \<noteq> rect_list \<Longrightarrow> cells st2 a = cells st a"
    by (simp_all add: st2_def put_def e next1 same1)
  have val: "merge_rects bd (cells st rect_list) d hdist =
                 (if m then merge_rects bd app d hdist else app)"
    by (simp add: merge_rects.simps [of bd "cells st rect_list"] pass)
  have run: "merge_rects_st bd rect_list d hdist st =
               (if m then merge_rects_st bd (fresh st) d hdist st2 else (fresh st, st2))"
    by (simp add: merge_rects_st.simps [of bd rect_list d hdist st] alloc old empty pass st2_def)
  show ?case
  proof (cases m)
    case False
    with run "1.prems"(2) have "res = fresh st" and "st' = st2" by simp_all
    with False val new2 old2 next2 same2 show ?thesis by simp
  next
    case True
    with run "1.prems"(2) have rec: "merge_rects_st bd (fresh st) d hdist st2 = (res, st')"
      by simp
    have pass1: "(e, app, m) =
        while_rect_list bd d hdist (cells st1 rect_list) (cells st1 (fresh st)) False"
      by (simp add: old empty pass)
    have "fresh st < fresh st2" by (simp add: next2)
    from "1.IH" [OF alloc [symmetric] pass1 refl True, folded st2_def, OF this rec]
    have "fresh st2 \<le> res" and "res < fresh st'"
      and "cells st' res = merge_rects bd (cells st2 (fresh st)) d hdist"
      and "\<forall>a<fresh st2. a \<noteq> fresh st \<longrightarrow> cells st' a = cells st2 a"
      by simp_all
    with True val new2 old2 next2 same2 "1.prems"(1) show ?thesis
      by auto
  qed
qed

lemma adsorb_rects_to_rects_st_effect:
  assumes "source_rects < fresh st" and "target_rects < fresh st"
    and "adsorb_rects_to_rects_st bd source_rects target_rects d st = ((leftover, updated), st')"
  shows "leftover = fresh st \<and> updated = target_rects
     \<and> cells st' leftover
         = fst (adsorb_rects_to_rects bd (cells st source_rects) (cells st target_rects) d)
     \<and> cells st' target_rects
         = snd (adsorb_rects_to_rects bd (cells st source_rects) (cells st target_rects) d)
     \<and> (\<forall>a<fresh st. a \<noteq> target_rects \<longrightarrow> cells st' a = cells st a)"
  using assms
  by (auto simp: adsorb_rects_to_rects_st_def adsorb_rects_to_rects_def new_list_def put_def
      split: prod.splits)


text \<open>
  C8, as stated: after the call the lists passed by the caller are as before. The
  merger leaves the list it was given empty, and the adsorption pass changes the target
  list it was given.
\<close>

theorem input_lists_changed_counterexample:
  "cells (store_of [[Box 0 0 50 50]]) 0 = [Box 0 0 50 50]
   \<and> cells (snd (merge_rects_st buffer_distance 0 10 None (store_of [[Box 0 0 50 50]]))) 0 = []
   \<and> cells (store_of [[Box 48 0 52 10], [Box 0 0 50 50]]) 1 = [Box 0 0 50 50]
   \<and> cells (snd (adsorb_rects_to_rects_st buffer_distance 0 1 5 (store_of [[Box 48 0 52 10], [Box 0 0 50 50]]))) 1
       = [Box 0 0 52 50]"
proof (intro conjI)
  show "cells (store_of [[Box 0 0 50 50]]) 0 = [Box 0 0 50 50]"
    by (simp add: store_of_def)
  show "cells (snd (merge_rects_st buffer_distance 0 10 None (store_of [[Box 0 0 50 50]]))) 0 = []"
    using merge_rects_st_effect [of 0 "store_of [[Box 0 0 50 50]]" buffer_distance 10 None
        "fst (merge_rects_st buffer_distance 0 10 None (store_of [[Box 0 0 50 50]]))"
        "snd (merge_rects_st buffer_distance 0 10 None (store_of [[Box 0 0 50 50]]))"]
    by (simp add: store_of_def)
  show "cells (store_of [[Box 48 0 52 10], [Box 0 0 50 50]]) 1 = [Box 0 0 50 50]"
    by (simp add: store_of_def)
  show "cells (snd (adsorb_rects_to_rects_st buffer_distance 0 1 5 (store_of [[Box 48 0 52 10], [Box 0 0 50 50]]))) 1
       = [Box 0 0 52 50]"
    by (simp add: adsorb_rects_to_rects_st_def new_list_def put_def store_of_def
        for_index_rect.simps ev_near)
qed

text \<open>
  C8, amended. The merger returns a list created during the call that holds the merged
  rectangles, leaves the list it was given empty, and changes no other list that existed
  before the call. The adsorption pass, given two different lists, returns the leftovers
  in a list created during the call and the target list it was given, which then holds
  the updated targets; it changes no other list that existed before the call, so the
  source list is as before.
\<close>

theorem merger_and_adsorption_on_lists:
  "(rect_list < fresh st \<and> merge_rects_st bd rect_list d hdist st = (res, st') \<longrightarrow>
      fresh st \<le> res \<and> res < fresh st'
      \<and> cells st' res = merge_rects bd (cells st rect_list) d hdist
      \<and> cells st' rect_list = []
      \<and> (\<forall>a<fresh st. a \<noteq> rect_list \<longrightarrow> cells st' a = cells st a))
   \<and> (source_rects < fresh st \<and> target_rects < fresh st \<and> source_rects \<noteq> target_rects
       \<and> adsorb_rects_to_rects_st bd source_rects target_rects e st = ((leftover, updated), st'') \<longrightarrow>
      leftover = fresh st \<and> updated = target_rects
      \<and> cells st'' leftover
          = fst (adsorb_rects_to_rects bd (cells st source_rects) (cells st target_rects) e)
      \<and> cells st'' target_rects
          = snd (adsorb_rects_to_rects bd (cells st source_rects) (cells st target_rects) e)
      \<and> cells st'' source_rects = cells st source_rects
      \<and> (\<forall>a<fresh st. a \<noteq> target_rects \<longrightarrow> cells st'' a = cells st a))"
proof (rule conjI)
  show "rect_list < fresh st \<and> merge_rects_st bd rect_list d hdist st = (res, st') \<longrightarrow>
      fresh st \<le> res \<and> res < fresh st'
      \<and> cells st' res = merge_rects bd (cells st rect_list) d hdist
      \<and> cells st' rect_list = []
      \<and> (\<forall>a<fresh st. a \<noteq> rect_list \<longrightarrow> cells st' a = cells st a)"
    using merge_rects_st_effect [of rect_list st bd d hdist res st'] by blast
  show "source_rects < fresh st \<and> target_rects < fresh st \<and> source_rects \<noteq> target_rects
       \<and> adsorb_rects_to_rects_st bd source_rects target_rects e st = ((leftover, updated), st'') \<longrightarrow>
      leftover = fresh st \<and> updated = target_rects
      \<and> cells st'' leftover
          = fst (adsorb_rects_to_rects bd (cells st source_rects) (cells st target_rects) e)
      \<and> cells st'' target_rects
          = snd (adsorb_rects_to_rects bd (cells st source_rects) (cells st target_rects) e)
      \<and> cells st'' source_rects = cells st source_rects
      \<and> (\<forall>a<fresh st. a \<noteq> target_rects \<longrightarrow> cells st'' a = cells st a)"
    using adsorb_rects_to_rects_st_effect [of source_rects st target_rects bd e leftover updated st'']
    by simp
qed

theorem merger_and_adsorption_on_lists_witness:
  "0 < fresh (store_of [[Box 0 0 50 50, Box 55 0 100 50], [Box 200 0 250 50]])
   \<and> 2 \<le> fst (merge_rects_st buffer_distance 0 10 None
               (store_of [[Box 0 0 50 50, Box 55 0 100 50], [Box 200 0 250 50]]))
   \<and> cells (snd (merge_rects_st buffer_distance 0 10 None
                   (store_of [[Box 0 0 50 50, Box 55 0 100 50], [Box 200 0 250 50]])))
        (fst (merge_rects_st buffer_distance 0 10 None
                (store_of [[Box 0 0 50 50, Box 55 0 100 50], [Box 200 0 250 50]])))
       = [Box 0 0 100 50]
   \<and> cells (snd (merge_rects_st buffer_distance 0 10 None
                   (store_of [[Box 0 0 50 50, Box 55 0 100 50], [Box 200 0 250 50]]))) 0 = []
   \<and> cells (snd (merge_rects_st buffer_distance 0 10 None
                   (store_of [[Box 0 0 50 50, Box 55 0 100 50], [Box 200 0 250 50]]))) 1
       = [Box 200 0 250 50]
   \<and> fst (adsorb_rects_to_rects_st buffer_distance 0 1 5
            (store_of [[Box 300 300 310 310, Box 48 0 52 10], [Box 0 0 50 50, Box 200 0 250 50]]))
       = (2, 1)
   \<and> cells (snd (adsorb_rects_to_rects_st buffer_distance 0 1 5
            (store_of [[Box 300 300 310 310, Box 48 0 52 10], [Box 0 0 50 50, Box 200 0 250 50]]))) 2
       = [Box 300 300 310 310]
   \<and> cells (snd (adsorb_rects_to_rects_st buffer_distance 0 1 5
            (store_of [[Box 300 300 310 310, Box 48 0 52 10], [Box 0 0 50 50, Box 200 0 250 50]]))) 1
       = [Box 0 0 52 50, Box 200 0 250 50]
   \<and> cells (snd (adsorb_rects_to_rects_st buffer_distance 0 1 5
            (store_of [[Box 300 300 310 310, Box 48 0 52 10], [Box 0 0 50 50, Box 200 0 250 50]]))) 0
       = [Box 300 300 310 310, Box 48 0 52 10]"
proof -
  let ?S = "store_of [[Box 0 0 50 50, Box 55 0 100 50], [Box 200 0 250 50]]"
  let ?T = "store_of [[Box 300 300 310 310, Box 48 0 52 10], [Box 0 0 50 50, Box 200 0 250 50]]"
  let ?m = "merge_rects_st buffer_distance 0 10 None ?S"
  let ?a = "adsorb_rects_to_rects_st buffer_distance 0 1 5 ?T"
  have merged: "merge_rects buffer_distance [Box 0 0 50 50, Box 55 0 100 50] 10 None = [Box 0 0 100 50]"
    by (simp add: ev power2_eq_square)
  have adsorbed: "adsorb_rects_to_rects buffer_distance [Box 300 300 310 310, Box 48 0 52 10]
                    [Box 0 0 50 50, Box 200 0 250 50] 5
                  = ([Box 300 300 310 310], [Box 0 0 52 50, Box 200 0 250 50])"
    by (simp add: adsorb_Cons adsorb_Nil ev_near)
  note inst = merger_and_adsorption_on_lists [of 0 ?S buffer_distance 10 None "fst ?m" "snd ?m", THEN conjunct1]
  note inst2 = merger_and_adsorption_on_lists [of 0 ?T buffer_distance 10 None "fst ?m" "snd ?m"
      0 1 5 "fst (fst ?a)" "snd (fst ?a)" "snd ?a", THEN conjunct2]
  have "fresh ?S = 2" and "cells ?S 0 = [Box 0 0 50 50, Box 55 0 100 50]"
    and "cells ?S 1 = [Box 200 0 250 50]"
    by (simp_all add: store_of_def)
  with inst merged have m: "2 \<le> fst ?m \<and> cells (snd ?m) (fst ?m) = [Box 0 0 100 50]
      \<and> cells (snd ?m) 0 = [] \<and> cells (snd ?m) 1 = [Box 200 0 250 50]"
    by simp
  have "fresh ?T = 2" and "cells ?T 0 = [Box 300 300 310 310, Box 48 0 52 10]"
    and "cells ?T 1 = [Box 0 0 50 50, Box 200 0 250 50]"
    by (simp_all add: store_of_def)
  with inst2 adsorbed have a: "fst ?a = (2, 1) \<and> cells (snd ?a) 2 = [Box 300 300 310 310]
      \<and> cells (snd ?a) 1 = [Box 0 0 52 50, Box 200 0 250 50]
      \<and> cells (snd ?a) 0 = [Box 300 300 310 310, Box 48 0 52 10]"
    by (auto simp: prod_eq_iff)
  have "0 < fresh ?S" by (simp add: store_of_def)
  with m a show ?thesis by blast
qed

end
